theory Spec2Isabelle
  imports Complex_Main "HOL-Library.AList" "HOL-Library.Sublist"
begin

section \<open>The hierarchical timer of pyutilib.misc.timing\<close>

text \<open>
  The development embeds the classes \<^verbatim>\<open>_HierarchicalHelper\<close> and
  \<^verbatim>\<open>HierarchicalTimer\<close> of \<^verbatim>\<open>pyutilib/misc/timing.py\<close>.

  \<^item> Clock readings and accumulated times are Python floats; they are modelled as
    exact rationals (every finite float is a rational number). The reading that
    \<^verbatim>\<open>time.time()\<close> returns inside a method is a parameter \<open>now\<close> of the method.
  \<^item> A \<^verbatim>\<open>dict\<close> keeps its insertion order, so \<^verbatim>\<open>timers\<close> is an association list
    with distinct keys; a new key is appended, a known key keeps its place.
  \<^item> The objects form a tree: a \<^verbatim>\<open>_HierarchicalHelper\<close> is created in
    \<^verbatim>\<open>_get_timer\<close> only and is stored in exactly one \<^verbatim>\<open>timers\<close> dictionary.
    A reference to an accumulator is therefore modelled by its path of names from the
    root, and a mutation through the reference by a functional update at that path.
  \<^item> An exception is a value of type \<open>error\<close>. The methods of
    \<^verbatim>\<open>HierarchicalTimer\<close> return the exception raised (if any) together with the
    state the object is left in, since a failing call may already have changed it.
\<close>

subsection \<open>Data model\<close>

datatype error = IndexError | KeyError | AssertionError | RuntimeError | TypeError | ZeroDivisionError

text \<open>
  \<^verbatim>\<open>_HierarchicalHelper.__init__\<close>: \<^verbatim>\<open>total_time = 0\<close>, \<^verbatim>\<open>t0 = None\<close>,
  \<^verbatim>\<open>n_calls = 0\<close>, \<^verbatim>\<open>timers = dict()\<close>.
\<close>

datatype helper =
  Helper (total_time: rat) (t0: "rat option") (n_calls: int) (timers: "(string \<times> helper) list")

definition new_helper :: helper where
  "new_helper = Helper 0 None 0 []"

text \<open>\<^verbatim>\<open>HierarchicalTimer.__init__\<close>: \<^verbatim>\<open>stack = list()\<close>, \<^verbatim>\<open>timers = dict()\<close>.
  The top of the stack is the last element (\<^verbatim>\<open>append\<close> and \<^verbatim>\<open>pop\<close>).\<close>

record HierarchicalTimer =
  stack :: "string list"
  timers_HT :: "(string \<times> helper) list"

definition init_HT :: HierarchicalTimer where
  "init_HT = \<lparr>stack = [], timers_HT = []\<rparr>"

subsection \<open>The accumulator\<close>

text \<open>\<^verbatim>\<open>self.t0 = time.time()\<close>\<close>

definition start_increment :: "rat \<Rightarrow> helper \<Rightarrow> helper" where
  "start_increment now self = Helper (total_time self) (Some now) (n_calls self) (timers self)"

text \<open>
  \<^verbatim>\<open>self.total_time += time.time() - self.t0; self.n_calls += 1\<close>.
  Subtracting \<^verbatim>\<open>None\<close> from a float raises \<^verbatim>\<open>TypeError\<close> before anything is
  assigned. The field \<^verbatim>\<open>t0\<close> is not assigned by this method.
\<close>

definition stop_increment :: "rat \<Rightarrow> helper \<Rightarrow> error + helper" where
  "stop_increment now self =
     (case t0 self of
        None \<Rightarrow> Inl TypeError
      | Some t \<Rightarrow> Inr (Helper (total_time self + (now - t)) (t0 self) (n_calls self + 1) (timers self)))"

subsection \<open>Paths into the tree\<close>

text \<open>
  Both classes have the attribute \<^verbatim>\<open>timers\<close>, and \<^verbatim>\<open>_get_timer\<close> walks
  \<^verbatim>\<open>tmp = tmp.timers[i]\<close> from the timer itself, so a position in the tree is given
  by the dictionary it owns. \<open>update_path p f ts\<close> follows the names of \<open>p\<close> from the
  dictionary \<open>ts\<close> and replaces the dictionary reached by \<open>f\<close> of it; a missing name
  raises \<^verbatim>\<open>KeyError\<close>, as \<^verbatim>\<open>tmp.timers[i]\<close> does. \<open>AList.update\<close> is the dictionary
  assignment \<^verbatim>\<open>d[k] = v\<close>.
\<close>

fun update_path :: "string list \<Rightarrow> ((string \<times> helper) list \<Rightarrow> error + (string \<times> helper) list)
    \<Rightarrow> (string \<times> helper) list \<Rightarrow> error + (string \<times> helper) list" where
  "update_path [] f ts = f ts"
| "update_path (i # p) f ts =
     (case map_of ts i of
        None \<Rightarrow> Inl KeyError
      | Some h \<Rightarrow>
          (case update_path p f (timers h) of
             Inl e \<Rightarrow> Inl e
           | Inr ts' \<Rightarrow> Inr (AList.update i (Helper (total_time h) (t0 h) (n_calls h) ts') ts)))"

text \<open>The accumulator at a path of names from the root dictionary, if there is one.\<close>

fun lookup_path :: "string list \<Rightarrow> (string \<times> helper) list \<Rightarrow> helper option" where
  "lookup_path [] ts = None"
| "lookup_path (i # p) ts =
     (case map_of ts i of
        None \<Rightarrow> None
      | Some h \<Rightarrow> if p = [] then Some h else lookup_path p (timers h))"

text \<open>
  A reference to an accumulator: the path to its parent and its name there.
  \<open>call_at r m ts\<close> is the method call \<open>m\<close> on the accumulator that \<open>r\<close> refers to.
\<close>

type_synonym ref = "string list \<times> string"

definition on_child :: "string \<Rightarrow> (helper \<Rightarrow> error + helper) \<Rightarrow> (string \<times> helper) list
    \<Rightarrow> error + (string \<times> helper) list" where
  "on_child name m ts =
     (case map_of ts name of
        None \<Rightarrow> Inl KeyError
      | Some h \<Rightarrow> (case m h of Inl e \<Rightarrow> Inl e | Inr h' \<Rightarrow> Inr (AList.update name h' ts)))"

definition call_at :: "ref \<Rightarrow> (helper \<Rightarrow> error + helper) \<Rightarrow> (string \<times> helper) list
    \<Rightarrow> error + (string \<times> helper) list" where
  "call_at r m ts = update_path (fst r) (on_child (snd r) m) ts"

subsection \<open>The timer\<close>

text \<open>
  \<^verbatim>\<open>_get_timer(identifier, should_exist)\<close> walks the stack, then returns the child
  \<^verbatim>\<open>identifier\<close> of the node reached, creating it unless \<^verbatim>\<open>should_exist\<close>.
  The model returns the reference together with the root dictionary after the creation.
\<close>

definition get_timer :: "string \<Rightarrow> bool \<Rightarrow> HierarchicalTimer \<Rightarrow> error + (ref \<times> (string \<times> helper) list)" where
  "get_timer identifier should_exist self =
     (case update_path (stack self)
             (\<lambda>ts. if map_of ts identifier \<noteq> None then Inr ts
                   else if should_exist then Inl RuntimeError
                   else Inr (AList.update identifier new_helper ts))
             (timers_HT self) of
        Inl e \<Rightarrow> Inl e
      | Inr ts' \<Rightarrow> Inr ((stack self, identifier), ts'))"

text \<open>
  \<^verbatim>\<open>timer = self._get_timer(identifier); timer.start_increment(); self.stack.append(identifier)\<close>
\<close>

definition start_increment_HT :: "string \<Rightarrow> rat \<Rightarrow> HierarchicalTimer \<Rightarrow> error option \<times> HierarchicalTimer" where
  "start_increment_HT identifier now self =
     (case get_timer identifier False self of
        Inl e \<Rightarrow> (Some e, self)
      | Inr (timer, ts) \<Rightarrow>
          (case call_at timer (\<lambda>h. Inr (start_increment now h)) ts of
             Inl e \<Rightarrow> (Some e, self\<lparr>timers_HT := ts\<rparr>)
           | Inr ts' \<Rightarrow> (None, \<lparr>stack = stack self @ [identifier], timers_HT = ts'\<rparr>)))"

text \<open>
  \<^verbatim>\<open>assert identifier == self.stack.pop()\<close>: the pop is evaluated first (it raises
  \<^verbatim>\<open>IndexError\<close> on the empty list), then the comparison, then the assertion.
  Assertions are enabled, as they are unless the interpreter is run with \<^verbatim>\<open>-O\<close>.
  \<^verbatim>\<open>timer = self._get_timer(identifier, should_exist=True); timer.stop_increment()\<close>
\<close>

definition stop_increment_HT :: "string \<Rightarrow> rat \<Rightarrow> HierarchicalTimer \<Rightarrow> error option \<times> HierarchicalTimer" where
  "stop_increment_HT identifier now self =
     (if stack self = [] then (Some IndexError, self)
      else
        let popped = last (stack self);
            self1 = self\<lparr>stack := butlast (stack self)\<rparr>
        in if identifier \<noteq> popped then (Some AssertionError, self1)
           else
             (case get_timer identifier True self1 of
                Inl e \<Rightarrow> (Some e, self1)
              | Inr (timer, ts) \<Rightarrow>
                  (case call_at timer (stop_increment now) ts of
                     Inl e \<Rightarrow> (Some e, self1\<lparr>timers_HT := ts\<rparr>)
                   | Inr ts' \<Rightarrow> (None, self1\<lparr>timers_HT := ts'\<rparr>))))"

text \<open>\<^verbatim>\<open>self.stack = list(); self.timers = dict()\<close>\<close>

definition reset :: "HierarchicalTimer \<Rightarrow> HierarchicalTimer" where
  "reset self = self\<lparr>stack := [], timers_HT := []\<rparr>"

subsection \<open>String formatting\<close>

text \<open>
  The format specifications of the report: \<^verbatim>\<open><30\<close> and \<^verbatim>\<open>>15\<close> pad with spaces to
  a minimal width and never truncate; \<^verbatim>\<open>d\<close> is the decimal numeral of an integer;
  \<^verbatim>\<open>.1f\<close> and \<^verbatim>\<open>.2e\<close> round the exact value of the float to the digits shown, a tie
  to the even digit. Lengths count characters of ASCII names.
\<close>

definition ljust :: "nat \<Rightarrow> string \<Rightarrow> string" where
  "ljust w s = s @ replicate (w - length s) (CHR '' '')"

definition rjust :: "nat \<Rightarrow> string \<Rightarrow> string" where
  "rjust w s = replicate (w - length s) (CHR '' '') @ s"

definition digit_char :: "nat \<Rightarrow> char" where
  "digit_char d = char_of (48 + d)"

fun digits :: "nat \<Rightarrow> string" where
  "digits n = (if n < 10 then [digit_char n] else digits (n div 10) @ [digit_char (n mod 10)])"

definition fmt_d :: "int \<Rightarrow> string" where
  "fmt_d i = (if i < 0 then ''-'' else []) @ digits (nat \<bar>i\<bar>)"

definition round_half_even :: "rat \<Rightarrow> int" where
  "round_half_even q =
     (let f = \<lfloor>q\<rfloor>; d = q - of_int f
      in if d < 1 / 2 then f else if 1 / 2 < d then f + 1 else if even f then f else f + 1)"

definition fmt_f1 :: "rat \<Rightarrow> string" where
  "fmt_f1 x =
     (let r = nat (round_half_even (\<bar>x\<bar> * 10))
      in (if x < 0 then ''-'' else []) @ digits (r div 10) @ ''.'' @ digits (r mod 10))"

text \<open>The decimal exponent \<open>e\<close> of a positive number: \<open>10 ^ e \<le> x < 10 ^ (e + 1)\<close>.\<close>

function exponent_up :: "rat \<Rightarrow> int" where
  "exponent_up x = (if 10 \<le> x then exponent_up (x / 10) + 1 else 0)"
  by pat_completeness auto
termination
proof (relation "measure (\<lambda>x. nat \<lfloor>x\<rfloor>)")
  show "wf (measure (\<lambda>x::rat. nat \<lfloor>x\<rfloor>))" by simp
next
  fix x :: rat
  assume "10 \<le> x"
  then have c: "10 \<le> \<lfloor>x\<rfloor>" by linarith
  then have c': "(10::rat) \<le> of_int \<lfloor>x\<rfloor>" by linarith
  have "x < of_int \<lfloor>x\<rfloor> + 1" by linarith
  with c' have "x / 10 < of_int \<lfloor>x\<rfloor>" by linarith
  then have "\<lfloor>x / 10\<rfloor> < \<lfloor>x\<rfloor>" by (simp add: floor_less_iff)
  with c show "(x / 10, x) \<in> measure (\<lambda>x. nat \<lfloor>x\<rfloor>)" by simp
qed

function exponent_down :: "rat \<Rightarrow> int" where
  "exponent_down x = (if 0 < x \<and> x < 1 then exponent_down (x * 10) - 1 else 0)"
  by pat_completeness auto
termination
proof (relation "measure (\<lambda>x. nat \<lceil>1 / x\<rceil>)")
  show "wf (measure (\<lambda>x::rat. nat \<lceil>1 / x\<rceil>))" by simp
next
  fix x :: rat
  assume a: "0 < x \<and> x < 1"
  define y where "y = 1 / x"
  from a have "1 < y" by (simp add: y_def)
  then have c: "2 \<le> \<lceil>y\<rceil>" by linarith
  then have c': "(2::rat) \<le> of_int \<lceil>y\<rceil>" by linarith
  have "y \<le> of_int \<lceil>y\<rceil>" by simp
  with c' have "y / 10 \<le> of_int \<lceil>y\<rceil> - 1" by linarith
  then have "y / 10 \<le> of_int (\<lceil>y\<rceil> - 1)" by simp
  then have "\<lceil>y / 10\<rceil> \<le> \<lceil>y\<rceil> - 1" by (rule ceiling_le)
  with c have d: "nat \<lceil>y / 10\<rceil> < nat \<lceil>y\<rceil>" by linarith
  have "1 / (x * 10) = y / 10" unfolding y_def by (simp add: field_simps)
  with d have "nat \<lceil>1 / (x * 10)\<rceil> < nat \<lceil>1 / x\<rceil>" unfolding y_def by metis
  then show "(x * 10, x) \<in> measure (\<lambda>x. nat \<lceil>1 / x\<rceil>)" by simp
qed

definition exponent10 :: "rat \<Rightarrow> int" where
  "exponent10 x = (if 1 \<le> x then exponent_up x else exponent_down x)"

definition pow10 :: "int \<Rightarrow> rat" where
  "pow10 e = (if 0 \<le> e then 10 ^ nat e else 1 / 10 ^ nat (- e))"

definition fmt_e2 :: "rat \<Rightarrow> string" where
  "fmt_e2 x =
     (if x = 0 then ''0.00e+00''
      else
        let e0 = exponent10 \<bar>x\<bar>;
            m0 = nat (round_half_even (\<bar>x\<bar> * 100 / pow10 e0));
            m = (if 1000 \<le> m0 then 100 else m0);
            e = (if 1000 \<le> m0 then e0 + 1 else e0);
            ex = digits (nat \<bar>e\<bar>)
        in (if x < 0 then ''-'' else []) @ digits (m div 100) @ ''.''
           @ digits (m mod 100 div 10) @ digits (m mod 10)
           @ ''e'' @ (if e < 0 then ''-'' else ''+'') @ (if length ex < 2 then ''0'' @ ex else ex))"

subsection \<open>The report\<close>

text \<open>
  Python's \<^verbatim>\<open>/\<close> raises \<^verbatim>\<open>ZeroDivisionError\<close> when the divisor is zero, be it the
  integer \<^verbatim>\<open>0\<close> or the float \<^verbatim>\<open>0.0\<close>.
\<close>

definition py_div :: "rat \<Rightarrow> rat \<Rightarrow> error + rat" where
  "py_div a b = (if b = 0 then Inl ZeroDivisionError else Inr (a / b))"

definition newline :: char where
  "newline = CHR 0x0A"

text \<open>
  \<^verbatim>\<open>_HierarchicalHelper.print(indent)\<close>. \<open>print_items\<close> is the loop over
  \<^verbatim>\<open>self.timers.items()\<close>; it carries the string \<^verbatim>\<open>s\<close> and \<^verbatim>\<open>other_time\<close>, and
  its first argument is \<^verbatim>\<open>self.total_time\<close>.
\<close>

fun print :: "helper \<Rightarrow> string \<Rightarrow> error + string"
  and print_items :: "rat \<Rightarrow> string \<Rightarrow> (string \<times> helper) list \<Rightarrow> string \<Rightarrow> rat \<Rightarrow> error + (string \<times> rat)"
where
  "print (Helper self_total_time self_t0 self_n_calls self_timers) indent =
     (if length self_timers > 0 then
        (case print_items self_total_time indent self_timers [] self_total_time of
           Inl e \<Rightarrow> Inl e
         | Inr (s, other_time) \<Rightarrow>
             (case py_div other_time self_total_time of
                Inl e \<Rightarrow> Inl e
              | Inr q \<Rightarrow>
                  Inr (s @ indent @ ljust 30 ''other'' @ rjust 15 (fmt_e2 other_time)
                       @ rjust 15 ''N/A'' @ rjust 15 ''N/A''
                       @ rjust 15 (fmt_f1 (q * 100)) @ ''%'' @ [newline])))
      else Inr [])"
| "print_items self_total_time indent [] s other_time = Inr (s, other_time)"
| "print_items self_total_time indent ((name, timer) # rest) s other_time =
     (case py_div (total_time timer) (of_int (n_calls timer)) of
        Inl e \<Rightarrow> Inl e
      | Inr average \<Rightarrow>
          (case py_div (total_time timer) self_total_time of
             Inl e \<Rightarrow> Inl e
           | Inr q \<Rightarrow>
               (case print timer (indent @ ''    '') of
                  Inl e \<Rightarrow> Inl e
                | Inr sub \<Rightarrow>
                    print_items self_total_time indent rest
                      (s @ indent @ ljust 30 name @ rjust 15 (fmt_e2 (total_time timer))
                         @ rjust 15 (fmt_d (n_calls timer)) @ rjust 15 (fmt_e2 average)
                         @ rjust 15 (fmt_f1 (q * 100)) @ ''%'' @ [newline] @ sub)
                      (other_time - total_time timer))))"

text \<open>\<^verbatim>\<open>HierarchicalTimer.__str__\<close>: the loop over the top-level regions.\<close>

fun str_items :: "(string \<times> helper) list \<Rightarrow> string \<Rightarrow> error + string" where
  "str_items [] s = Inr s"
| "str_items ((name, timer) # rest) s =
     (case py_div (total_time timer) (of_int (n_calls timer)) of
        Inl e \<Rightarrow> Inl e
      | Inr average \<Rightarrow>
          (case print timer ''    '' of
             Inl e \<Rightarrow> Inl e
           | Inr sub \<Rightarrow>
               str_items rest
                 (s @ ljust 30 name @ rjust 15 (fmt_e2 (total_time timer))
                    @ rjust 15 (fmt_d (n_calls timer)) @ rjust 15 (fmt_e2 average)
                    @ [newline] @ sub)))"

definition str_HT :: "HierarchicalTimer \<Rightarrow> error + string" where
  "str_HT self = str_items (timers_HT self) []"

subsection \<open>Sequences of calls\<close>

text \<open>
  A call of the public interface with the clock reading it observes. A caller may catch
  an exception and go on, so a run continues from the state a failing call leaves.
\<close>

datatype event = Start string rat | Stop string rat | Report

fun step :: "event \<Rightarrow> HierarchicalTimer \<Rightarrow> error option \<times> HierarchicalTimer" where
  "step (Start name now) self = start_increment_HT name now self"
| "step (Stop name now) self = stop_increment_HT name now self"
| "step Report self = (case str_HT self of Inl e \<Rightarrow> (Some e, self) | Inr s \<Rightarrow> (None, self))"

fun run :: "HierarchicalTimer \<Rightarrow> event list \<Rightarrow> HierarchicalTimer" where
  "run self [] = self"
| "run self (e # es) = run (snd (step e self)) es"

text \<open>No call of the sequence raises.\<close>

fun no_error :: "HierarchicalTimer \<Rightarrow> event list \<Rightarrow> bool" where
  "no_error self [] = True"
| "no_error self (e # es) = (fst (step e self) = None \<and> no_error (snd (step e self)) es)"

text \<open>The clock readings a sequence of calls observes, in order.\<close>

fun readings :: "event list \<Rightarrow> rat list" where
  "readings [] = []"
| "readings (Start name now # es) = now # readings es"
| "readings (Stop name now # es) = now # readings es"
| "readings (Report # es) = readings es"

subsection \<open>Calls that reach an accumulator\<close>






subsection \<open>The report as a list of rows\<close>

text \<open>
  The rows of the report as the format description gives them. A region row has the
  name in a column of 30, then total time, call count and average time in columns of 15,
  then the percentage of the parent's total time and a percent sign; an \<open>other\<close> row has
  \<^verbatim>\<open>N/A\<close> in the count and average columns. A row at depth \<open>d\<close> is indented by
  \<open>4 * d\<close> spaces. The row of a top-level region stops after the average time.
\<close>

datatype row =
  TopRow string rat int rat
| RegionRow nat string rat int rat rat
| OtherRow nat rat rat

definition indent_of :: "nat \<Rightarrow> string" where
  "indent_of depth = replicate (4 * depth) (CHR '' '')"

fun render :: "row \<Rightarrow> string" where
  "render (TopRow name ttime ncalls avg) =
     ljust 30 name @ rjust 15 (fmt_e2 ttime) @ rjust 15 (fmt_d ncalls)
       @ rjust 15 (fmt_e2 avg) @ [newline]"
| "render (RegionRow depth name ttime ncalls avg pct) =
     indent_of depth @ ljust 30 name @ rjust 15 (fmt_e2 ttime) @ rjust 15 (fmt_d ncalls)
       @ rjust 15 (fmt_e2 avg) @ rjust 15 (fmt_f1 pct) @ ''%'' @ [newline]"
| "render (OtherRow depth other pct) =
     indent_of depth @ ljust 30 ''other'' @ rjust 15 (fmt_e2 other) @ rjust 15 ''N/A''
       @ rjust 15 ''N/A'' @ rjust 15 (fmt_f1 pct) @ ''%'' @ [newline]"

text \<open>
  Depth first, in insertion order: the row of each child, followed by the rows below
  that child, and after the last child the \<open>other\<close> row of the level; no rows for a
  level without children.
\<close>

fun rows_below :: "nat \<Rightarrow> helper \<Rightarrow> row list"
  and rows_children :: "nat \<Rightarrow> rat \<Rightarrow> (string \<times> helper) list \<Rightarrow> row list"
where
  "rows_below depth (Helper parent_total parent_t0 parent_n_calls children) =
     (if children = [] then []
      else
        let other_time = parent_total - sum_list (map (\<lambda>c. total_time (snd c)) children)
        in rows_children depth parent_total children
           @ [OtherRow depth other_time (other_time / parent_total * 100)])"
| "rows_children depth parent_total [] = []"
| "rows_children depth parent_total ((name, child) # rest) =
     RegionRow depth name (total_time child) (n_calls child)
         (total_time child / of_int (n_calls child)) (total_time child / parent_total * 100)
       # rows_below (Suc depth) child @ rows_children depth parent_total rest"

fun top_rows :: "(string \<times> helper) list \<Rightarrow> row list" where
  "top_rows [] = []"
| "top_rows ((name, region) # rest) =
     TopRow name (total_time region) (n_calls region) (total_time region / of_int (n_calls region))
       # rows_below 1 region @ top_rows rest"

definition report_rows :: "HierarchicalTimer \<Rightarrow> row list" where
  "report_rows self = top_rows (timers_HT self)"

subsection \<open>Predicates of the proofs\<close>

text \<open>Two accumulators with the same own data, whatever their children.\<close>

definition same_fields :: "helper \<Rightarrow> helper \<Rightarrow> bool" where
  "same_fields h h' = (total_time h = total_time h' \<and> t0 h = t0 h' \<and> n_calls h = n_calls h')"

text \<open>
  A change of a dictionary that touches the entry \<open>name\<close> only, and there either keeps
  the children of the accumulator or enters an accumulator without children.
\<close>

definition local_at :: "string \<Rightarrow> ((string \<times> helper) list \<Rightarrow> error + (string \<times> helper) list) \<Rightarrow> bool" where
  "local_at name f =
     (\<forall>ts ts'. f ts = Inr ts' \<longrightarrow>
        (\<forall>k. k \<noteq> name \<longrightarrow> map_of ts' k = map_of ts k)
        \<and> (case map_of ts name of
             Some c \<Rightarrow> (\<exists>c'. map_of ts' name = Some c' \<and> timers c' = timers c)
           | None \<Rightarrow> (map_of ts' name = None \<or> (\<exists>c'. map_of ts' name = Some c' \<and> timers c' = []))))"

text \<open>
  What one call may do to the accumulator at a fixed path, \<open>x\<close> before the call and
  \<open>y\<close> after it, when the call reads the clock at \<open>now\<close>: nothing; or its own data
  stay as they are; or it is started; or it is created (and started); or it is stopped.
\<close>

definition changed_by :: "rat \<Rightarrow> helper option \<Rightarrow> helper option \<Rightarrow> bool" where
  "changed_by now x y =
     ((x = None \<and> y = None)
      \<or> (\<exists>h h'. x = Some h \<and> y = Some h' \<and> same_fields h h')
      \<or> (\<exists>h h'. x = Some h \<and> y = Some h' \<and> total_time h' = total_time h
            \<and> n_calls h' = n_calls h \<and> t0 h' = Some now)
      \<or> (\<exists>h'. x = None \<and> y = Some h' \<and> total_time h' = 0 \<and> n_calls h' = 0
            \<and> (t0 h' = None \<or> t0 h' = Some now))
      \<or> (\<exists>h h' t. x = Some h \<and> y = Some h' \<and> t0 h = Some t \<and> t0 h' = Some t
            \<and> total_time h' = total_time h + (now - t) \<and> n_calls h' = n_calls h + 1))"

text \<open>
  Every accumulator of the tree has a total time and a call count that are not negative,
  and a start reading, if any, among the clock readings \<open>R\<close>.
\<close>

definition tree_inv :: "rat set \<Rightarrow> (string \<times> helper) list \<Rightarrow> bool" where
  "tree_inv R ts = (\<forall>p h. lookup_path p ts = Some h \<longrightarrow>
       0 \<le> total_time h \<and> 0 \<le> n_calls h \<and> (\<forall>t. t0 h = Some t \<longrightarrow> t \<in> R))"

section \<open>Properties of the tree operations\<close>

subsection \<open>A change at one path leaves the other paths alone\<close>

lemma same_fields_refl: "same_fields h h"
  by (simp add: same_fields_def)

lemma rel_same_refl: "rel_option same_fields x x"
  by (cases x) (simp_all add: same_fields_refl)

lemma rel_same_trans:
  "rel_option same_fields x y \<Longrightarrow> rel_option same_fields y z \<Longrightarrow> rel_option same_fields x z"
  by (cases x; cases y; cases z) (simp_all add: same_fields_def)

lemma local_at_ensure:
  "local_at name (\<lambda>ts. if map_of ts name \<noteq> None then Inr ts
                   else if b then Inl RuntimeError
                   else Inr (AList.update name new_helper ts))"
  by (auto simp: local_at_def update_conv' new_helper_def split: option.splits if_splits)

lemma local_at_on_child:
  assumes "\<And>h h'. m h = Inr h' \<Longrightarrow> timers h' = timers h"
  shows "local_at name (on_child name m)"
  using assms
  by (auto simp: local_at_def on_child_def update_conv' split: option.splits sum.splits)

lemma local_atD_other:
  "local_at name f \<Longrightarrow> f ts = Inr ts' \<Longrightarrow> k \<noteq> name \<Longrightarrow> map_of ts' k = map_of ts k"
  unfolding local_at_def by blast

lemma local_atD_some:
  assumes "local_at name f" "f ts = Inr ts'" "map_of ts name = Some c"
  shows "\<exists>c'. map_of ts' name = Some c' \<and> timers c' = timers c"
proof -
  from assms(1,2) have "case map_of ts name of
             Some c \<Rightarrow> (\<exists>c'. map_of ts' name = Some c' \<and> timers c' = timers c)
           | None \<Rightarrow> (map_of ts' name = None \<or> (\<exists>c'. map_of ts' name = Some c' \<and> timers c' = []))"
    unfolding local_at_def by blast
  with assms(3) show ?thesis by simp
qed

lemma local_atD_none:
  assumes "local_at name f" "f ts = Inr ts'" "map_of ts name = None"
  shows "map_of ts' name = None \<or> (\<exists>c'. map_of ts' name = Some c' \<and> timers c' = [])"
proof -
  from assms(1,2) have "case map_of ts name of
             Some c \<Rightarrow> (\<exists>c'. map_of ts' name = Some c' \<and> timers c' = timers c)
           | None \<Rightarrow> (map_of ts' name = None \<or> (\<exists>c'. map_of ts' name = Some c' \<and> timers c' = []))"
    unfolding local_at_def by blast
  with assms(3) show ?thesis by simp
qed

lemma update_path_frame:
  "local_at name f \<Longrightarrow> update_path p f ts = Inr ts' \<Longrightarrow> q \<noteq> p @ [name]
   \<Longrightarrow> rel_option same_fields (lookup_path q ts) (lookup_path q ts')"
proof (induction p arbitrary: ts ts' q)
  case Nil
  then have f: "f ts = Inr ts'" by simp
  show ?case
  proof (cases q)
    case Nil
    then show ?thesis by simp
  next
    case (Cons k q')
    show ?thesis
    proof (cases "k = name")
      case False
      with Nil.prems(1) f have "map_of ts' k = map_of ts k" by (simp add: local_atD_other)
      then show ?thesis using Cons by (simp add: rel_same_refl)
    next
      case True
      with Nil.prems(3) Cons have q': "q' \<noteq> []" by simp
      show ?thesis
      proof (cases "map_of ts name")
        case None
        with Nil.prems(1) f have "map_of ts' name = None \<or> (\<exists>c'. map_of ts' name = Some c' \<and> timers c' = [])"
          by (rule local_atD_none)
        then show ?thesis using None Cons True q' by (cases q') auto
      next
        case (Some c)
        with Nil.prems(1) f obtain c' where "map_of ts' name = Some c'" "timers c' = timers c"
          using local_atD_some by blast
        then show ?thesis using Some Cons True q' by (simp add: rel_same_refl)
      qed
    qed
  qed
next
  case (Cons i p)
  from Cons.prems(2) obtain c tsc where c: "map_of ts i = Some c"
    and u: "update_path p f (timers c) = Inr tsc"
    and ts': "ts' = AList.update i (Helper (total_time c) (t0 c) (n_calls c) tsc) ts"
    by (auto split: option.splits sum.splits)
  show ?case
  proof (cases q)
    case Nil
    then show ?thesis by simp
  next
    case (Cons k q')
    show ?thesis
    proof (cases "k = i")
      case False
      then have "map_of ts' k = map_of ts k" by (simp add: ts' update_conv')
      then show ?thesis using Cons by (simp add: rel_same_refl)
    next
      case True
      show ?thesis
      proof (cases "q' = []")
        case True
        then show ?thesis using \<open>k = i\<close> Cons c by (simp add: ts' update_conv' same_fields_def)
      next
        case False
        from Cons.prems(3) Cons \<open>k = i\<close> have "q' \<noteq> p @ [name]" by simp
        from Cons.IH [OF Cons.prems(1) u this]
        show ?thesis using False \<open>k = i\<close> Cons c by (simp add: ts' update_conv')
      qed
    qed
  qed
qed

lemma update_path_on_child_target:
  "update_path p (on_child name m) ts = Inr ts'
   \<Longrightarrow> \<exists>c c'. lookup_path (p @ [name]) ts = Some c \<and> m c = Inr c' \<and> lookup_path (p @ [name]) ts' = Some c'"
proof (induction p arbitrary: ts ts')
  case Nil
  then show ?case by (auto simp: on_child_def update_conv' split: option.splits sum.splits)
next
  case (Cons i p)
  from Cons.prems obtain c tsc where c: "map_of ts i = Some c"
    and u: "update_path p (on_child name m) (timers c) = Inr tsc"
    and ts': "ts' = AList.update i (Helper (total_time c) (t0 c) (n_calls c) tsc) ts"
    by (auto split: option.splits sum.splits)
  from Cons.IH [OF u] show ?case using c by (simp add: ts' update_conv')
qed

lemma update_path_ensure_target:
  "update_path p (\<lambda>ts. if map_of ts name \<noteq> None then Inr ts
                   else if b then Inl RuntimeError
                   else Inr (AList.update name new_helper ts)) ts = Inr ts'
   \<Longrightarrow> lookup_path (p @ [name]) ts' =
        (case lookup_path (p @ [name]) ts of Some c \<Rightarrow> Some c | None \<Rightarrow> Some new_helper)"
proof (induction p arbitrary: ts ts')
  case Nil
  then show ?case by (auto simp: update_conv' split: option.splits if_splits)
next
  case (Cons i p)
  from Cons.prems obtain c tsc where c: "map_of ts i = Some c"
    and u: "update_path p (\<lambda>ts. if map_of ts name \<noteq> None then Inr ts
                   else if b then Inl RuntimeError
                   else Inr (AList.update name new_helper ts)) (timers c) = Inr tsc"
    and ts': "ts' = AList.update i (Helper (total_time c) (t0 c) (n_calls c) tsc) ts"
    by (auto split: option.splits sum.splits)
  from Cons.IH [OF u] show ?case using c by (simp add: ts' update_conv')
qed

lemma get_timer_Inr:
  "get_timer name b s = Inr (r, ts1) \<Longrightarrow>
     r = (stack s, name)
     \<and> update_path (stack s) (\<lambda>ts. if map_of ts name \<noteq> None then Inr ts
                   else if b then Inl RuntimeError
                   else Inr (AList.update name new_helper ts)) (timers_HT s) = Inr ts1"
  by (auto simp: get_timer_def split: sum.splits)

lemma get_timer_frame:
  assumes "get_timer name b s = Inr (r, ts1)" "q \<noteq> stack s @ [name]"
  shows "rel_option same_fields (lookup_path q (timers_HT s)) (lookup_path q ts1)"
  using update_path_frame [OF local_at_ensure _ assms(2)] get_timer_Inr [OF assms(1)] by blast

lemma get_timer_target:
  assumes "get_timer name b s = Inr (r, ts1)"
  shows "lookup_path (stack s @ [name]) ts1 =
        (case lookup_path (stack s @ [name]) (timers_HT s) of Some c \<Rightarrow> Some c | None \<Rightarrow> Some new_helper)"
  using update_path_ensure_target get_timer_Inr [OF assms] by blast

subsection \<open>The effect of one call on each accumulator\<close>

lemma changed_by_refl: "changed_by now x x"
  by (cases x) (simp_all add: changed_by_def same_fields_def)

lemma changed_by_same: "rel_option same_fields x y \<Longrightarrow> changed_by now x y"
  by (cases x; cases y) (simp_all add: changed_by_def)

lemma start_frame:
  assumes "q \<noteq> stack s @ [name]"
  shows "rel_option same_fields (lookup_path q (timers_HT s))
           (lookup_path q (timers_HT (snd (start_increment_HT name now s))))"
proof (cases "get_timer name False s")
  case (Inl e)
  then show ?thesis by (simp add: start_increment_HT_def rel_same_refl)
next
  case (Inr a)
  obtain r ts1 where a: "a = (r, ts1)" by (cases a)
  with Inr have g: "get_timer name False s = Inr (r, ts1)" by simp
  from get_timer_Inr [OF g] have r: "r = (stack s, name)" by simp
  let ?m = "\<lambda>h. Inr (start_increment now h) :: error + helper"
  note f1 = get_timer_frame [OF g assms]
  show ?thesis
  proof (cases "call_at r ?m ts1")
    case (Inl e)
    with g f1 show ?thesis by (simp add: start_increment_HT_def)
  next
    case (Inr ts2)
    then have u: "update_path (stack s) (on_child name ?m) ts1 = Inr ts2"
      by (simp add: call_at_def r)
    have s': "timers_HT (snd (start_increment_HT name now s)) = ts2"
      using g Inr by (simp add: start_increment_HT_def)
    have "local_at name (on_child name ?m)"
      by (rule local_at_on_child) (auto simp: start_increment_def)
    from update_path_frame [OF this u assms] f1
    show ?thesis unfolding s' by (rule rel_same_trans [rotated])
  qed
qed

lemma start_target:
  assumes "fst (start_increment_HT name now s) = None"
  shows "\<exists>c. lookup_path (stack s @ [name]) (timers_HT (snd (start_increment_HT name now s)))
               = Some (start_increment now c)
             \<and> (lookup_path (stack s @ [name]) (timers_HT s) = Some c
                \<or> lookup_path (stack s @ [name]) (timers_HT s) = None \<and> c = new_helper)"
proof -
  let ?m = "\<lambda>h. Inr (start_increment now h) :: error + helper"
  from assms obtain r ts1 ts2 where g: "get_timer name False s = Inr (r, ts1)"
    and c: "call_at r ?m ts1 = Inr ts2"
    and s': "timers_HT (snd (start_increment_HT name now s)) = ts2"
    by (auto simp: start_increment_HT_def split: sum.splits prod.splits)
  from get_timer_Inr [OF g] have r: "r = (stack s, name)" by simp
  from c have u: "update_path (stack s) (on_child name ?m) ts1 = Inr ts2"
    by (simp add: call_at_def r)
  from update_path_on_child_target [OF u] obtain c where
    c1: "lookup_path (stack s @ [name]) ts1 = Some c"
    and c2: "lookup_path (stack s @ [name]) ts2 = Some (start_increment now c)"
    by auto
  from c1 have "lookup_path (stack s @ [name]) (timers_HT s) = Some c
      \<or> lookup_path (stack s @ [name]) (timers_HT s) = None \<and> c = new_helper"
    unfolding get_timer_target [OF g]
    by (cases "lookup_path (stack s @ [name]) (timers_HT s)") simp_all
  with c2 show ?thesis unfolding s' by blast
qed

lemma start_changed_by:
  "changed_by now (lookup_path q (timers_HT s))
      (lookup_path q (timers_HT (snd (start_increment_HT name now s))))"
proof (cases "get_timer name False s")
  case (Inl e)
  then show ?thesis by (simp add: start_increment_HT_def changed_by_refl)
next
  case (Inr a)
  obtain r ts1 where a: "a = (r, ts1)" by (cases a)
  with Inr have g: "get_timer name False s = Inr (r, ts1)" by simp
  from get_timer_Inr [OF g] have r: "r = (stack s, name)" by simp
  let ?m = "\<lambda>h. Inr (start_increment now h) :: error + helper"
  have crt: "changed_by now (lookup_path q (timers_HT s)) (lookup_path q ts1)"
  proof (cases "q = stack s @ [name]")
    case False
    from get_timer_frame [OF g False] show ?thesis by (rule changed_by_same)
  next
    case True
    show ?thesis unfolding True get_timer_target [OF g]
      by (cases "lookup_path (stack s @ [name]) (timers_HT s)")
         (simp_all add: changed_by_def same_fields_def new_helper_def)
  qed
  show ?thesis
  proof (cases "call_at r ?m ts1")
    case (Inl e)
    with g crt show ?thesis by (simp add: start_increment_HT_def)
  next
    case (Inr ts2)
    then have u: "update_path (stack s) (on_child name ?m) ts1 = Inr ts2"
      by (simp add: call_at_def r)
    have s': "timers_HT (snd (start_increment_HT name now s)) = ts2"
      using g Inr by (simp add: start_increment_HT_def)
    show ?thesis
    proof (cases "q = stack s @ [name]")
      case False
      have "local_at name (on_child name ?m)"
        by (rule local_at_on_child) (auto simp: start_increment_def)
      from update_path_frame [OF this u False] get_timer_frame [OF g False]
      have "rel_option same_fields (lookup_path q (timers_HT s)) (lookup_path q ts2)"
        by (rule rel_same_trans [rotated])
      then show ?thesis unfolding s' by (rule changed_by_same)
    next
      case True
      from update_path_on_child_target [OF u] obtain c where
        c: "lookup_path (stack s @ [name]) ts1 = Some c"
        and c': "lookup_path (stack s @ [name]) ts2 = Some (start_increment now c)"
        by auto
      from c show ?thesis unfolding s' True c' get_timer_target [OF g]
        by (cases "lookup_path (stack s @ [name]) (timers_HT s)")
           (auto simp: changed_by_def start_increment_def new_helper_def)
    qed
  qed
qed

lemma stop_changed_by:
  "changed_by now (lookup_path q (timers_HT s))
      (lookup_path q (timers_HT (snd (stop_increment_HT name now s))))"
proof (cases "stack s = [] \<or> name \<noteq> last (stack s)")
  case True
  then show ?thesis by (auto simp: stop_increment_HT_def Let_def changed_by_refl)
next
  case False
  let ?s1 = "s\<lparr>stack := butlast (stack s)\<rparr>"
  show ?thesis
  proof (cases "get_timer name True ?s1")
    case (Inl e)
    with False show ?thesis by (simp add: stop_increment_HT_def Let_def changed_by_refl)
  next
    case (Inr a)
    obtain r ts1 where a: "a = (r, ts1)" by (cases a)
    with Inr have g: "get_timer name True ?s1 = Inr (r, ts1)" by simp
    from get_timer_Inr [OF g] have r: "r = (butlast (stack s), name)" by simp
    let ?t = "butlast (stack s) @ [name]"
    have fr1: "q \<noteq> ?t \<Longrightarrow> rel_option same_fields (lookup_path q (timers_HT s)) (lookup_path q ts1)" for q
      using get_timer_frame [OF g, of q] by simp
    have tg1: "lookup_path ?t ts1 =
        (case lookup_path ?t (timers_HT s) of Some c \<Rightarrow> Some c | None \<Rightarrow> Some new_helper)"
      using get_timer_target [OF g] by simp
    have crt: "changed_by now (lookup_path q (timers_HT s)) (lookup_path q ts1)"
    proof (cases "q = ?t")
      case False
      from fr1 [OF False] show ?thesis by (rule changed_by_same)
    next
      case True
      show ?thesis unfolding True tg1
        by (cases "lookup_path ?t (timers_HT s)")
           (simp_all add: changed_by_def same_fields_def new_helper_def)
    qed
    show ?thesis
    proof (cases "call_at r (stop_increment now) ts1")
      case (Inl e)
      with g crt False show ?thesis by (simp add: stop_increment_HT_def Let_def)
    next
      case (Inr ts2)
      then have u: "update_path (butlast (stack s)) (on_child name (stop_increment now)) ts1 = Inr ts2"
        by (simp add: call_at_def r)
      have s': "timers_HT (snd (stop_increment_HT name now s)) = ts2"
        using g Inr False by (simp add: stop_increment_HT_def Let_def)
      show ?thesis
      proof (cases "q = ?t")
        case False
        have "local_at name (on_child name (stop_increment now))"
          by (rule local_at_on_child) (auto simp: stop_increment_def split: option.splits)
        from update_path_frame [OF this u False] fr1 [OF False]
        have "rel_option same_fields (lookup_path q (timers_HT s)) (lookup_path q ts2)"
          by (rule rel_same_trans [rotated])
        then show ?thesis unfolding s' by (rule changed_by_same)
      next
        case True
        from update_path_on_child_target [OF u] obtain c c' where
          c: "lookup_path ?t ts1 = Some c" and m: "stop_increment now c = Inr c'"
          and c': "lookup_path ?t ts2 = Some c'"
          by auto
        from c m show ?thesis unfolding s' True c' tg1
          by (cases "lookup_path ?t (timers_HT s)")
             (auto simp: changed_by_def stop_increment_def new_helper_def split: option.splits)
      qed
    qed
  qed
qed

lemma run_append: "run s (es @ es') = run (run s es) es'"
  by (induction es arbitrary: s) simp_all

lemma readings_append: "readings (es @ es') = readings es @ readings es'"
  by (induction es rule: readings.induct) simp_all

lemma step_changed_by:
  "readings [e] = [now] \<Longrightarrow>
   changed_by now (lookup_path q (timers_HT s)) (lookup_path q (timers_HT (snd (step e s))))"
  by (cases e) (simp_all add: start_changed_by stop_changed_by)

lemma step_Report: "readings [e] = [] \<Longrightarrow> snd (step e s) = s"
  by (cases e) (simp_all split: sum.splits)

lemma readings_single: "readings [e] = [] \<or> (\<exists>now. readings [e] = [now])"
  by (cases e) simp_all

subsection \<open>The invariant of the tree\<close>

lemma tree_inv_step:
  assumes inv: "tree_inv R (timers_HT s)" and le: "\<forall>t\<in>R. t \<le> now" and e: "readings [e] = [now]"
  shows "tree_inv (insert now R) (timers_HT (snd (step e s)))"
  unfolding tree_inv_def
proof (intro allI impI)
  fix p h'
  assume h': "lookup_path p (timers_HT (snd (step e s))) = Some h'"
  from step_changed_by [OF e, of p s] h'
  have cb: "changed_by now (lookup_path p (timers_HT s)) (Some h')" by simp
  show "0 \<le> total_time h' \<and> 0 \<le> n_calls h' \<and> (\<forall>t. t0 h' = Some t \<longrightarrow> t \<in> insert now R)"
  proof (cases "lookup_path p (timers_HT s)")
    case None
    with cb show ?thesis by (auto simp: changed_by_def)
  next
    case (Some h)
    with inv have i: "0 \<le> total_time h" "0 \<le> n_calls h" "\<forall>t. t0 h = Some t \<longrightarrow> t \<in> R"
      by (auto simp: tree_inv_def)
    from cb Some consider
        (same) "same_fields h h'"
      | (started) "total_time h' = total_time h" "n_calls h' = n_calls h" "t0 h' = Some now"
      | (stopped) t where "t0 h = Some t" "t0 h' = Some t"
          "total_time h' = total_time h + (now - t)" "n_calls h' = n_calls h + 1"
      by (auto simp: changed_by_def)
    then show ?thesis
    proof cases
      case same
      with i show ?thesis by (simp add: same_fields_def)
    next
      case started
      with i show ?thesis by simp
    next
      case stopped
      with i le have "t \<le> now" by blast
      with stopped i show ?thesis by simp
    qed
  qed
qed

lemma grows_step:
  assumes inv: "tree_inv R (timers_HT s)" and le: "\<forall>t\<in>R. t \<le> now" and e: "readings [e] = [now]"
    and h: "lookup_path p (timers_HT s) = Some h"
  shows "\<exists>h'. lookup_path p (timers_HT (snd (step e s))) = Some h'
           \<and> total_time h \<le> total_time h' \<and> n_calls h \<le> n_calls h'"
proof -
  from inv h have i: "\<forall>t. t0 h = Some t \<longrightarrow> t \<in> R" by (auto simp: tree_inv_def)
  from step_changed_by [OF e, of p s] h
  have "changed_by now (Some h) (lookup_path p (timers_HT (snd (step e s))))" by simp
  then consider
      (same) h' where "lookup_path p (timers_HT (snd (step e s))) = Some h'" "same_fields h h'"
    | (started) h' where "lookup_path p (timers_HT (snd (step e s))) = Some h'"
         "total_time h' = total_time h" "n_calls h' = n_calls h"
    | (stopped) h' t where "lookup_path p (timers_HT (snd (step e s))) = Some h'" "t0 h = Some t"
          "total_time h' = total_time h + (now - t)" "n_calls h' = n_calls h + 1"
    by (auto simp: changed_by_def)
  then show ?thesis
  proof cases
    case same
    then show ?thesis by (simp add: same_fields_def)
  next
    case started
    then show ?thesis by simp
  next
    case stopped
    with i le have "t \<le> now" by blast
    with stopped show ?thesis by simp
  qed
qed

lemma tree_inv_run:
  "sorted (readings es) \<Longrightarrow> tree_inv (set (readings es)) (timers_HT (run init_HT es))"
proof (induction es rule: rev_induct)
  case Nil
  have "lookup_path p [] = None" for p by (cases p) simp_all
  then show ?case by (simp add: tree_inv_def init_HT_def)
next
  case (snoc e es)
  from snoc.prems have srt: "sorted (readings es)"
    and le: "\<forall>t\<in>set (readings es). \<forall>u\<in>set (readings [e]). t \<le> u"
    by (auto simp: readings_append sorted_append)
  from snoc.IH [OF srt] have inv: "tree_inv (set (readings es)) (timers_HT (run init_HT es))" .
  from readings_single [of e] show ?case
  proof
    assume "readings [e] = []"
    with inv show ?thesis by (simp add: run_append readings_append step_Report)
  next
    assume "\<exists>now. readings [e] = [now]"
    then obtain now where now: "readings [e] = [now]" ..
    with le have "\<forall>t\<in>set (readings es). t \<le> now" by simp
    from tree_inv_step [OF inv this now]
    show ?thesis by (simp add: run_append readings_append now insert_commute Un_commute)
  qed
qed

subsection \<open>Calls that succeed follow the stack\<close>






subsection \<open>The report is the concatenation of its rows\<close>

lemma indent_of_Suc: "indent_of (Suc d) = indent_of d @ ''    ''"
proof -
  have "4 * Suc d = 4 * d + 4" by simp
  then have "indent_of (Suc d) = replicate (4 * d) (CHR '' '') @ replicate 4 (CHR '' '')"
    unfolding indent_of_def by (simp only: replicate_add)
  also have "replicate 4 (CHR '' '') = ''    ''" by (simp add: numeral_eq_Suc)
  finally show ?thesis by (simp add: indent_of_def)
qed

lemma print_rows:
  "\<forall>d s. print h indent = Inr s \<longrightarrow> indent = indent_of d
      \<longrightarrow> s = concat (map render (rows_below d h))"
  "\<forall>d s ot. print_items T indent ts s0 o0 = Inr (s, ot) \<longrightarrow> indent = indent_of d
      \<longrightarrow> s = s0 @ concat (map render (rows_children d T ts))
          \<and> ot = o0 - sum_list (map (\<lambda>c. total_time (snd c)) ts)"
proof (induction h indent and T indent ts s0 o0 rule: print_print_items.induct)
  case (1 self_total_time self_t0 self_n_calls self_timers indent)
  show ?case
  proof (intro allI impI)
    fix d s
    assume p: "print (Helper self_total_time self_t0 self_n_calls self_timers) indent = Inr s"
      and i: "indent = indent_of d"
    show "s = concat (map render (rows_below d (Helper self_total_time self_t0 self_n_calls self_timers)))"
    proof (cases "self_timers = []")
      case True
      with p show ?thesis by simp
    next
      case False
      then have len: "0 < length self_timers" by simp
      from p False obtain s1 ot where
        it: "print_items self_total_time indent self_timers [] self_total_time = Inr (s1, ot)"
        and nz: "self_total_time \<noteq> 0"
        and s: "s = s1 @ indent @ ljust 30 ''other'' @ rjust 15 (fmt_e2 ot)
                       @ rjust 15 ''N/A'' @ rjust 15 ''N/A''
                       @ rjust 15 (fmt_f1 (ot / self_total_time * 100)) @ ''%'' @ [newline]"
        by (auto simp: py_div_def split: sum.splits prod.splits if_splits)
      from "1.IH" [OF len] it i have
        "s1 = concat (map render (rows_children d self_total_time self_timers))"
        "ot = self_total_time - sum_list (map (\<lambda>c. total_time (snd c)) self_timers)"
        by auto
      with s False i show ?thesis by (simp add: Let_def)
    qed
  qed
next
  case (2 self_total_time indent s other_time)
  show ?case by simp
next
  case (3 self_total_time indent name timer rest s other_time)
  show ?case
  proof (intro allI impI)
    fix d s' ot
    assume p: "print_items self_total_time indent ((name, timer) # rest) s other_time = Inr (s', ot)"
      and i: "indent = indent_of d"
    from p obtain sub where
      n: "py_div (total_time timer) (of_int (n_calls timer)) = Inr (total_time timer / of_int (n_calls timer))"
      and q: "py_div (total_time timer) self_total_time = Inr (total_time timer / self_total_time)"
      and sub: "print timer (indent @ ''    '') = Inr sub"
      and r: "print_items self_total_time indent rest
                      (s @ indent @ ljust 30 name @ rjust 15 (fmt_e2 (total_time timer))
                         @ rjust 15 (fmt_d (n_calls timer))
                         @ rjust 15 (fmt_e2 (total_time timer / of_int (n_calls timer)))
                         @ rjust 15 (fmt_f1 (total_time timer / self_total_time * 100)) @ ''%'' @ [newline] @ sub)
                      (other_time - total_time timer) = Inr (s', ot)"
      by (auto simp: py_div_def split: sum.splits if_splits)
    from "3.IH"(1) [OF n q] sub i have
      sb: "sub = concat (map render (rows_below (Suc d) timer))"
      by (simp add: indent_of_Suc)
    from "3.IH"(2) [OF n q sub] r i have
      "s' = (s @ indent @ ljust 30 name @ rjust 15 (fmt_e2 (total_time timer))
                         @ rjust 15 (fmt_d (n_calls timer))
                         @ rjust 15 (fmt_e2 (total_time timer / of_int (n_calls timer)))
                         @ rjust 15 (fmt_f1 (total_time timer / self_total_time * 100)) @ ''%'' @ [newline] @ sub)
             @ concat (map render (rows_children d self_total_time rest))"
      and "ot = (other_time - total_time timer) - sum_list (map (\<lambda>c. total_time (snd c)) rest)"
      by auto
    with sb i show "s' = s @ concat (map render (rows_children d self_total_time ((name, timer) # rest)))
        \<and> ot = other_time - sum_list (map (\<lambda>c. total_time (snd c)) ((name, timer) # rest))"
      by simp
  qed
qed

lemma str_items_rows:
  "str_items ts s0 = Inr s \<Longrightarrow> s = s0 @ concat (map render (top_rows ts))"
proof (induction ts s0 rule: str_items.induct)
  case (1 s)
  then show ?case by simp
next
  case (2 name timer rest s0)
  from "2.prems" obtain sub where
    n: "py_div (total_time timer) (of_int (n_calls timer)) = Inr (total_time timer / of_int (n_calls timer))"
    and sub: "print timer ''    '' = Inr sub"
    and r: "str_items rest (s0 @ ljust 30 name @ rjust 15 (fmt_e2 (total_time timer))
                    @ rjust 15 (fmt_d (n_calls timer))
                    @ rjust 15 (fmt_e2 (total_time timer / of_int (n_calls timer)))
                    @ [newline] @ sub) = Inr s"
    by (auto simp: py_div_def split: sum.splits if_splits)
  have "''    '' = indent_of 1" by (simp add: indent_of_def numeral_eq_Suc)
  with print_rows(1) [of timer "''    ''"] sub
  have sb: "sub = concat (map render (rows_below 1 timer))" by blast
  from "2.IH" [OF n sub r] sb show ?case by simp
qed

section \<open>The claims\<close>

text \<open>
  Claim C1 says that producing the report never raises, whatever regions are still open.
  The code divides \<^verbatim>\<open>timer.total_time\<close> by \<^verbatim>\<open>timer.n_calls\<close> for every region it
  prints, and a region that has been started and not yet stopped has \<^verbatim>\<open>n_calls == 0\<close>:
  after \<^verbatim>\<open>start_increment('a')\<close> alone, \<^verbatim>\<open>__str__\<close> raises \<^verbatim>\<open>ZeroDivisionError\<close>.
\<close>

theorem report_with_open_region_raises:
  "str_HT (snd (start_increment_HT ''a'' 1 init_HT)) = Inl ZeroDivisionError"
  by code_simp

text \<open>
  Claim C2 says that a parent whose total time is zero gets its children's percentages
  rendered as 0% without an error. The code divides by \<^verbatim>\<open>self.total_time\<close> with no
  test: when the clock returns the same reading for the four calls below, region \<open>a\<close> is
  closed with a total time of zero and one child, and the report raises
  \<^verbatim>\<open>ZeroDivisionError\<close>; so does \<^verbatim>\<open>print\<close> on such an accumulator directly.
\<close>

theorem report_with_zero_parent_total_raises:
  "str_HT (run init_HT [Start ''a'' 1, Start ''b'' 1, Stop ''b'' 1, Stop ''a'' 1])
     = Inl ZeroDivisionError
   \<and> print (Helper 0 (Some 1) 1 [(''b'', Helper 0 (Some 1) 1 [])]) [] = Inl ZeroDivisionError"
  by code_simp

text \<open>
  Claim C3: with a stack that is not empty, \<^verbatim>\<open>stop_increment(name)\<close> with a name other
  than the top of the stack raises the error of the mismatch, \<^verbatim>\<open>AssertionError\<close>,
  whatever the tree holds; and a call that raises nothing had a stack that was not
  empty and a name equal to its top.
\<close>

theorem stop_requires_top_of_stack:
  "(stack self \<noteq> [] \<and> name \<noteq> last (stack self)
      \<longrightarrow> fst (stop_increment_HT name now self) = Some AssertionError)
   \<and> (fst (stop_increment_HT name now self) = None
      \<longrightarrow> stack self \<noteq> [] \<and> name = last (stack self))"
  by (auto simp: stop_increment_HT_def Let_def split: if_splits sum.splits prod.splits)

text \<open>
  With \<open>a\<close> and \<open>b\<close> open, stopping \<open>a\<close> (which exists in the tree) fails, and stopping
  \<open>b\<close> succeeds.
\<close>

theorem stop_requires_top_of_stack_witness:
  "stack (run init_HT [Start ''a'' 1, Start ''b'' 2]) \<noteq> []
   \<and> ''a'' \<noteq> last (stack (run init_HT [Start ''a'' 1, Start ''b'' 2]))
   \<and> fst (stop_increment_HT ''a'' 3 (run init_HT [Start ''a'' 1, Start ''b'' 2])) = Some AssertionError
   \<and> fst (stop_increment_HT ''b'' 3 (run init_HT [Start ''a'' 1, Start ''b'' 2])) = None
   \<and> ''b'' = last (stack (run init_HT [Start ''a'' 1, Start ''b'' 2]))"
proof -
  let ?s = "run init_HT [Start ''a'' 1, Start ''b'' 2]"
  have h1: "stack ?s \<noteq> [] \<and> ''a'' \<noteq> last (stack ?s)" by code_simp
  have h2: "fst (stop_increment_HT ''b'' 3 ?s) = None" by code_simp
  show ?thesis
    using h1 h2 stop_requires_top_of_stack [of ?s "''a''" 3] stop_requires_top_of_stack [of ?s "''b''" 3] by blast
qed

text \<open>
  Claim C4: the calls \<^verbatim>\<open>start a, start b, start a, stop a, stop b, stop a\<close> raise
  nothing and leave two accumulators named \<open>a\<close>, one at the root and one below \<open>b\<close>,
  each with a call count of 1, for any clock readings. In general a start of \<open>name\<close>
  under the stack \<open>p\<close> reaches the accumulator at the path \<open>p @ [name]\<close>, where it
  records the reading, and leaves the data of the accumulator at every other path as
  they are: the same name at another path is another accumulator.
\<close>

theorem regions_are_per_path:
  "no_error init_HT
      [Start ''a'' t1, Start ''b'' t2, Start ''a'' t3, Stop ''a'' t4, Stop ''b'' t5, Stop ''a'' t6]
   \<and> run init_HT
      [Start ''a'' t1, Start ''b'' t2, Start ''a'' t3, Stop ''a'' t4, Stop ''b'' t5, Stop ''a'' t6]
     = \<lparr>stack = [],
        timers_HT =
          [(''a'', Helper (t6 - t1) (Some t1) 1
             [(''b'', Helper (t5 - t2) (Some t2) 1
                [(''a'', Helper (t4 - t3) (Some t3) 1 [])])])]\<rparr>
   \<and> (fst (start_increment_HT name now self) = None \<longrightarrow>
        (\<exists>h'. lookup_path (stack self @ [name]) (timers_HT (snd (start_increment_HT name now self))) = Some h'
              \<and> t0 h' = Some now))
   \<and> (q \<noteq> stack self @ [name] \<and> lookup_path q (timers_HT self) = Some h \<longrightarrow>
        (\<exists>h'. lookup_path q (timers_HT (snd (start_increment_HT name now self))) = Some h'
              \<and> total_time h' = total_time h \<and> n_calls h' = n_calls h \<and> t0 h' = t0 h))"
proof (intro conjI impI)
  show "no_error init_HT
      [Start ''a'' t1, Start ''b'' t2, Start ''a'' t3, Stop ''a'' t4, Stop ''b'' t5, Stop ''a'' t6]"
    by (simp add: init_HT_def start_increment_HT_def stop_increment_HT_def
      get_timer_def call_at_def on_child_def new_helper_def start_increment_def stop_increment_def)
  show "run init_HT
      [Start ''a'' t1, Start ''b'' t2, Start ''a'' t3, Stop ''a'' t4, Stop ''b'' t5, Stop ''a'' t6]
     = \<lparr>stack = [],
        timers_HT =
          [(''a'', Helper (t6 - t1) (Some t1) 1
             [(''b'', Helper (t5 - t2) (Some t2) 1
                [(''a'', Helper (t4 - t3) (Some t3) 1 [])])])]\<rparr>"
    by (simp add: init_HT_def start_increment_HT_def stop_increment_HT_def
      get_timer_def call_at_def on_child_def new_helper_def start_increment_def stop_increment_def)
next
  assume "fst (start_increment_HT name now self) = None"
  from start_target [OF this]
  show "\<exists>h'. lookup_path (stack self @ [name]) (timers_HT (snd (start_increment_HT name now self))) = Some h'
              \<and> t0 h' = Some now"
    by (auto simp: start_increment_def)
next
  assume a: "q \<noteq> stack self @ [name] \<and> lookup_path q (timers_HT self) = Some h"
  then have "rel_option same_fields (Some h)
      (lookup_path q (timers_HT (snd (start_increment_HT name now self))))"
    using start_frame [of q self name now] by simp
  then show "\<exists>h'. lookup_path q (timers_HT (snd (start_increment_HT name now self))) = Some h'
              \<and> total_time h' = total_time h \<and> n_calls h' = n_calls h \<and> t0 h' = t0 h"
    by (cases "lookup_path q (timers_HT (snd (start_increment_HT name now self)))")
       (simp_all add: same_fields_def)
qed

text \<open>
  Starting \<open>a\<close> below \<open>a, b\<close> reaches the accumulator at \<open>a, b, a\<close> and leaves the root
  accumulator \<open>a\<close>, started at 1, as it is.
\<close>

theorem regions_are_per_path_witness:
  "fst (start_increment_HT ''a'' 3 (run init_HT [Start ''a'' 1, Start ''b'' 2])) = None
   \<and> [''a''] \<noteq> stack (run init_HT [Start ''a'' 1, Start ''b'' 2]) @ [''a'']
   \<and> lookup_path [''a''] (timers_HT (run init_HT [Start ''a'' 1, Start ''b'' 2]))
       = Some (Helper 0 (Some 1) 0 [(''b'', Helper 0 (Some 2) 0 [])])
   \<and> stack (run init_HT [Start ''a'' 1, Start ''b'' 2]) @ [''a''] = [''a'', ''b'', ''a'']
   \<and> (\<exists>h'. lookup_path (stack (run init_HT [Start ''a'' 1, Start ''b'' 2]) @ [''a''])
              (timers_HT (snd (start_increment_HT ''a'' 3 (run init_HT [Start ''a'' 1, Start ''b'' 2])))) = Some h'
          \<and> t0 h' = Some 3)
   \<and> (\<exists>h'. lookup_path [''a'']
              (timers_HT (snd (start_increment_HT ''a'' 3 (run init_HT [Start ''a'' 1, Start ''b'' 2])))) = Some h'
          \<and> total_time h' = total_time (Helper 0 (Some 1) 0 [(''b'', Helper 0 (Some 2) 0 [])])
          \<and> n_calls h' = n_calls (Helper 0 (Some 1) 0 [(''b'', Helper 0 (Some 2) 0 [])])
          \<and> t0 h' = t0 (Helper 0 (Some 1) 0 [(''b'', Helper 0 (Some 2) 0 [])]))"
proof -
  let ?s = "run init_HT [Start ''a'' 1, Start ''b'' 2]"
  let ?h = "Helper 0 (Some 1) 0 [(''b'', Helper 0 (Some 2) 0 [])]"
  have st: "stack ?s @ [''a''] = [''a'', ''b'', ''a'']" by code_simp
  have h1: "fst (start_increment_HT ''a'' 3 ?s) = None" by code_simp
  have h2: "[''a''] \<noteq> stack ?s @ [''a'']" unfolding st by simp
  have h3: "lookup_path [''a''] (timers_HT ?s) = Some ?h" by code_simp
  note T = regions_are_per_path [of 1 2 3 4 5 6 "''a''" 3 ?s "[''a'']" ?h]
  from T h1 have c1: "\<exists>h'. lookup_path (stack ?s @ [''a''])
              (timers_HT (snd (start_increment_HT ''a'' 3 ?s))) = Some h' \<and> t0 h' = Some 3"
    by blast
  from T h2 h3 have c2: "\<exists>h'. lookup_path [''a'']
              (timers_HT (snd (start_increment_HT ''a'' 3 ?s))) = Some h'
          \<and> total_time h' = total_time ?h \<and> n_calls h' = n_calls ?h \<and> t0 h' = t0 ?h"
    by blast
  from h1 h2 h3 st c1 c2 show ?thesis by blast
qed

text \<open>
  Claim C5 gives every row of the report a percentage column, the rows of the top-level
  regions included. \<^verbatim>\<open>__str__\<close> ends the row of a top-level region after the average
  time: the report of one closed region \<open>a\<close> is a single row of 76 characters, the
  newline included, with no percent sign.
\<close>

theorem top_level_row_counterexample:
  "str_HT (run init_HT [Start ''a'' 1, Stop ''a'' 2])
     = Inr ''a                                    1.00e+00              1       1.00e+00\<newline>''
   \<and> length ''a                                    1.00e+00              1       1.00e+00\<newline>'' = 76
   \<and> CHR ''%'' \<notin> set ''a                                    1.00e+00              1       1.00e+00\<newline>''"
  by code_simp

text \<open>
  Claim C5, amended: a report that is produced is the concatenation of its rows, depth
  first; the row of a region at depth 1 or more is the indent, the name in a column of
  30, total time, call count and average time in columns of 15, the percentage in a column
  of 15 with one decimal, a percent sign and a newline; the row of a top-level region
  has the first four columns and the newline only; an \<open>other\<close> row has \<^verbatim>\<open>N/A\<close> in the
  count and average columns.
\<close>

theorem report_is_its_rows:
  "str_HT self = Inr s \<Longrightarrow> s = concat (map render (report_rows self))"
  using str_items_rows [of "timers_HT self" "[]" s] by (simp add: str_HT_def report_rows_def)

text \<open>
  A region \<open>a\<close> of 4 seconds with a child \<open>b\<close> of 1 second: one top-level row, one
  region row and one \<open>other\<close> row.
\<close>

theorem report_is_its_rows_witness:
  "str_HT (run init_HT [Start ''a'' 1, Start ''b'' 2, Stop ''b'' 3, Stop ''a'' 5])
     = Inr ''a                                    4.00e+00              1       4.00e+00\<newline>    b                                    1.00e+00              1       1.00e+00           25.0%\<newline>    other                                3.00e+00            N/A            N/A           75.0%\<newline>''
   \<and> report_rows (run init_HT [Start ''a'' 1, Start ''b'' 2, Stop ''b'' 3, Stop ''a'' 5])
     = [TopRow ''a'' 4 1 4, RegionRow 1 ''b'' 1 1 1 25, OtherRow 1 3 75]
   \<and> ''a                                    4.00e+00              1       4.00e+00\<newline>    b                                    1.00e+00              1       1.00e+00           25.0%\<newline>    other                                3.00e+00            N/A            N/A           75.0%\<newline>''
     = concat (map render (report_rows (run init_HT [Start ''a'' 1, Start ''b'' 2, Stop ''b'' 3, Stop ''a'' 5])))"
proof -
  let ?s = "run init_HT [Start ''a'' 1, Start ''b'' 2, Stop ''b'' 3, Stop ''a'' 5]"
  have h: "str_HT ?s = Inr ''a                                    4.00e+00              1       4.00e+00\<newline>    b                                    1.00e+00              1       1.00e+00           25.0%\<newline>    other                                3.00e+00            N/A            N/A           75.0%\<newline>''"
    by code_simp
  have r: "report_rows ?s = [TopRow ''a'' 4 1 4, RegionRow 1 ''b'' 1 1 1 25, OtherRow 1 3 75]"
    by code_simp
  show ?thesis by (rule conjI [OF h conjI [OF r report_is_its_rows [OF h]]])
qed

text \<open>
  Claim C6 says that \<^verbatim>\<open>stop_increment\<close> on an idle accumulator fails and that a stop
  clears the pending start. The method never assigns \<^verbatim>\<open>t0\<close>: after one start at 1
  and one stop at 2 the accumulator \<open>a\<close> is idle and still holds the reading 1, and a
  further \<^verbatim>\<open>stop_increment\<close> at 5 on it returns, adding 4 seconds and one call.
\<close>

theorem stop_increment_idle_counterexample:
  "lookup_path [''a''] (timers_HT (run init_HT [Start ''a'' 1, Stop ''a'' 2]))
     = Some (Helper 1 (Some 1) 1 [])
   \<and> stop_increment 5 (Helper 1 (Some 1) 1 []) = Inr (Helper 5 (Some 1) 2 [])"
  by code_simp

text \<open>
  Claim C6, amended: \<^verbatim>\<open>stop_increment\<close> fails, with \<^verbatim>\<open>TypeError\<close>, on an accumulator
  that has never been started (\<^verbatim>\<open>t0\<close> is \<^verbatim>\<open>None\<close>); on an accumulator that holds a
  start reading it adds \<open>now - t0\<close> to the total time, adds exactly 1 to the call count,
  and keeps the start reading and the children.
\<close>

theorem stop_increment_effect:
  "(t0 self = None \<longrightarrow> stop_increment now self = Inl TypeError)
   \<and> (t0 self = Some t \<longrightarrow>
        stop_increment now self
          = Inr (Helper (total_time self + (now - t)) (Some t) (n_calls self + 1) (timers self)))"
  by (simp add: stop_increment_def)

text \<open>
  The two cases, at a fresh accumulator and at one started at 1.
\<close>

theorem stop_increment_effect_witness:
  "t0 (Helper 0 None 0 []) = None
   \<and> stop_increment 3 (Helper 0 None 0 []) = Inl TypeError
   \<and> t0 (Helper 0 (Some 1) 0 []) = Some 1
   \<and> stop_increment 3 (Helper 0 (Some 1) 0 []) = Inr (Helper 2 (Some 1) 1 [])"
proof -
  have h1: "t0 (Helper 0 None 0 []) = None" by simp
  have h2: "t0 (Helper 0 (Some 1) 0 []) = Some 1" by simp
  from stop_increment_effect [of "Helper 0 None 0 []" 3 1] h1
  have c1: "stop_increment 3 (Helper 0 None 0 []) = Inl TypeError" by blast
  from stop_increment_effect [of "Helper 0 (Some 1) 0 []" 3 1] h2
  have c2: "stop_increment 3 (Helper 0 (Some 1) 0 []) = Inr (Helper 2 (Some 1) 1 [])" by simp
  from h1 h2 c1 c2 show ?thesis by blast
qed

text \<open>
  Claim C7: \<^verbatim>\<open>reset\<close> gives the initial state: the stack is empty, the report is the
  empty string, and a start and stop of \<open>x\<close> after it raise nothing and leave a tree
  that holds nothing but a fresh accumulator \<open>x\<close> with a call count of 1.
\<close>

theorem reset_gives_initial_state:
  "reset self = init_HT
   \<and> stack (reset self) = []
   \<and> str_HT (reset self) = Inr []
   \<and> no_error (reset self) [Start x t1, Stop x t2]
   \<and> run (reset self) [Start x t1, Stop x t2]
       = \<lparr>stack = [], timers_HT = [(x, Helper (t2 - t1) (Some t1) 1 [])]\<rparr>"
  by (simp add: reset_def init_HT_def str_HT_def start_increment_HT_def stop_increment_HT_def
      get_timer_def call_at_def on_child_def new_helper_def start_increment_def stop_increment_def)

text \<open>
  Claim C8: along any sequence of starts, stops and reports from the initial timer whose
  clock readings never decrease, an accumulator that is in the tree stays in the tree at
  its path, its total time and its call count are never below what they were, and both
  are at least 0. Calls that raise are included.
\<close>

theorem totals_never_decrease:
  "sorted (readings (es @ es')) \<Longrightarrow> lookup_path p (timers_HT (run init_HT es)) = Some h
   \<Longrightarrow> \<exists>h'. lookup_path p (timers_HT (run init_HT (es @ es'))) = Some h'
          \<and> total_time h \<le> total_time h' \<and> n_calls h \<le> n_calls h'
          \<and> 0 \<le> total_time h \<and> 0 \<le> n_calls h"
proof (induction es' rule: rev_induct)
  case Nil
  from tree_inv_run [of es] Nil show ?case by (auto simp: tree_inv_def)
next
  case (snoc e es')
  from snoc.prems(1) have srt: "sorted (readings (es @ es'))"
    and le: "\<forall>t\<in>set (readings (es @ es')). \<forall>u\<in>set (readings [e]). t \<le> u"
    by (auto simp: readings_append sorted_append)
  from snoc.IH [OF srt snoc.prems(2)] obtain h1 where
    h1: "lookup_path p (timers_HT (run init_HT (es @ es'))) = Some h1"
    and g1: "total_time h \<le> total_time h1" "n_calls h \<le> n_calls h1" "0 \<le> total_time h" "0 \<le> n_calls h"
    by blast
  have r: "run init_HT (es @ es' @ [e]) = snd (step e (run init_HT (es @ es')))"
    using run_append [of init_HT "es @ es'" "[e]"] by simp
  from readings_single [of e] show ?case
  proof
    assume "readings [e] = []"
    with h1 g1 show ?thesis by (simp add: r step_Report)
  next
    assume "\<exists>now. readings [e] = [now]"
    then obtain now where now: "readings [e] = [now]" ..
    with le have "\<forall>t\<in>set (readings (es @ es')). t \<le> now" by simp
    from grows_step [OF tree_inv_run [OF srt] this now h1] obtain h' where
      "lookup_path p (timers_HT (snd (step e (run init_HT (es @ es'))))) = Some h'"
      "total_time h1 \<le> total_time h'" "n_calls h1 \<le> n_calls h'" by blast
    with g1 show ?thesis unfolding r by auto
  qed
qed

text \<open>
  Region \<open>a\<close> with 4 seconds and 1 call keeps at least that through a report and one
  more cycle.
\<close>

theorem totals_never_decrease_witness:
  "sorted (readings ([Start ''a'' 1, Start ''b'' 2, Stop ''b'' 4, Stop ''a'' 5] @ [Report, Start ''a'' 7, Stop ''a'' 10]))
   \<and> lookup_path [''a''] (timers_HT (run init_HT [Start ''a'' 1, Start ''b'' 2, Stop ''b'' 4, Stop ''a'' 5]))
       = Some (Helper 4 (Some 1) 1 [(''b'', Helper 2 (Some 2) 1 [])])
   \<and> (\<exists>h'. lookup_path [''a''] (timers_HT (run init_HT
          ([Start ''a'' 1, Start ''b'' 2, Stop ''b'' 4, Stop ''a'' 5] @ [Report, Start ''a'' 7, Stop ''a'' 10]))) = Some h'
          \<and> 4 \<le> total_time h' \<and> 1 \<le> n_calls h')"
proof -
  let ?es = "[Start ''a'' 1, Start ''b'' 2, Stop ''b'' 4, Stop ''a'' 5]"
  let ?es' = "[Report, Start ''a'' 7, Stop ''a'' 10]"
  have h1: "sorted (readings (?es @ ?es'))" by simp
  have h2: "lookup_path [''a''] (timers_HT (run init_HT ?es))
       = Some (Helper 4 (Some 1) 1 [(''b'', Helper 2 (Some 2) 1 [])])" by code_simp
  from totals_never_decrease [OF h1 h2] h1 h2 show ?thesis by simp
qed

text \<open>
  Claim C9: when \<^verbatim>\<open>stop_increment(name)\<close> meets a stack that is not empty and whose top
  is not \<open>name\<close>, the \<^verbatim>\<open>AssertionError\<close> comes after the pop: the stack is left one
  element shorter and the tree is untouched, so the accumulator of the popped entry is
  not stopped. On the empty stack the call raises the \<^verbatim>\<open>IndexError\<close> of the pop and
  changes nothing.
\<close>

theorem stop_error_leaves_popped_stack:
  "(stack self \<noteq> [] \<and> name \<noteq> last (stack self)
      \<longrightarrow> stop_increment_HT name now self = (Some AssertionError, self\<lparr>stack := butlast (stack self)\<rparr>)
          \<and> length (stack (snd (stop_increment_HT name now self))) + 1 = length (stack self)
          \<and> timers_HT (snd (stop_increment_HT name now self)) = timers_HT self)
   \<and> (stack self = [] \<longrightarrow> stop_increment_HT name now self = (Some IndexError, self))"
  by (auto simp: stop_increment_HT_def Let_def)

text \<open>
  With \<open>a\<close> and \<open>b\<close> open, stopping \<open>a\<close> pops \<open>b\<close>; on the initial timer the pop fails.
\<close>

theorem stop_error_leaves_popped_stack_witness:
  "stack (run init_HT [Start ''a'' 1, Start ''b'' 2]) \<noteq> []
   \<and> ''a'' \<noteq> last (stack (run init_HT [Start ''a'' 1, Start ''b'' 2]))
   \<and> stop_increment_HT ''a'' 3 (run init_HT [Start ''a'' 1, Start ''b'' 2])
       = (Some AssertionError,
          (run init_HT [Start ''a'' 1, Start ''b'' 2])
            \<lparr>stack := butlast (stack (run init_HT [Start ''a'' 1, Start ''b'' 2]))\<rparr>)
   \<and> stack (snd (stop_increment_HT ''a'' 3 (run init_HT [Start ''a'' 1, Start ''b'' 2]))) = [''a'']
   \<and> stack init_HT = []
   \<and> stop_increment_HT ''a'' 3 init_HT = (Some IndexError, init_HT)"
proof -
  let ?s = "run init_HT [Start ''a'' 1, Start ''b'' 2]"
  have h1: "stack ?s \<noteq> [] \<and> ''a'' \<noteq> last (stack ?s)" by code_simp
  have h2: "stack init_HT = []" by (simp add: init_HT_def)
  have h3: "stack (snd (stop_increment_HT ''a'' 3 ?s)) = [''a'']" by code_simp
  from stop_error_leaves_popped_stack [of ?s "''a''" 3] h1
  have c1: "stop_increment_HT ''a'' 3 ?s = (Some AssertionError, ?s\<lparr>stack := butlast (stack ?s)\<rparr>)"
    by blast
  from stop_error_leaves_popped_stack [of init_HT "''a''" 3] h2
  have c2: "stop_increment_HT ''a'' 3 init_HT = (Some IndexError, init_HT)" by blast
  from h1 h2 h3 c1 c2 show ?thesis by blast
qed



end
